theory Spec2Isabelle
  imports Main
begin

section \<open>Strings and dictionaries of the Python runtime\<close>

text \<open>
  Strings are character lists. Characters are read as ASCII: the classes \<open>\w\<close> and
  \<open>\d\<close> and \<open>str.upper\<close> are modelled on ASCII letters, digits and the underscore.
\<close>

text \<open>\<open>s.split(sep)\<close> for a one-character separator: never an empty list.\<close>

fun split_chr :: "char \<Rightarrow> string \<Rightarrow> string list" where
  "split_chr sep [] = [[]]"
| "split_chr sep (c # cs) =
     (if c = sep then [] # split_chr sep cs
      else (case split_chr sep cs of
              [] \<Rightarrow> [[c]]
            | w # ws \<Rightarrow> (c # w) # ws))"

text \<open>\<open>s.rstrip("/")\<close> with a one-character argument: every trailing copy goes.\<close>

definition rstrip_chr :: "char \<Rightarrow> string \<Rightarrow> string" where
  "rstrip_chr c s = rev (dropWhile (\<lambda>x. x = c) (rev s))"

text \<open>
  A \<open>dict\<close> keeps insertion order: assigning to a key that is present replaces the value
  where it stands, assigning to a new key appends.
\<close>

fun dict_set :: "'k \<Rightarrow> 'v \<Rightarrow> ('k \<times> 'v) list \<Rightarrow> ('k \<times> 'v) list" where
  "dict_set k v [] = [(k, v)]"
| "dict_set k v (p # ps) = (if fst p = k then (k, v) # ps else p # dict_set k v ps)"

fun dict_get :: "('k \<times> 'v) list \<Rightarrow> 'k \<Rightarrow> 'v option" where
  "dict_get [] k = None"
| "dict_get (p # ps) k = (if fst p = k then Some (snd p) else dict_get ps k)"

text \<open>\<open>s.upper()\<close> on ASCII.\<close>

definition upper_chr :: "char \<Rightarrow> char" where
  "upper_chr c =
     (let n = (of_char c :: nat)
      in if 97 \<le> n \<and> n \<le> 122 then char_of (n - 32) else c)"

definition upper :: "string \<Rightarrow> string" where
  "upper s = map upper_chr s"

section \<open>Errors\<close>

text \<open>
  The exceptions the code can raise. \<open>ReError\<close> is \<open>re.error\<close> with its message;
  \<open>BaseExc\<close> is an exception of a handler that is not an \<open>Exception\<close>
  (\<open>except Exception\<close> lets it through). \<open>NotModelled\<close> is no exception: it marks
  an input outside the fragment of regular expressions and of \<open>int()\<close> that is modelled.
\<close>

datatype re_error =
    Redefinition string
  | BadGroupName string
  | MissingGroupName
  | UnterminatedName

datatype py_error =
    ValueError string
  | KeyError string
  | ReError re_error
  | IndexError string
  | FileNotFoundError string
  | BaseExc string
  | NotModelled

section \<open>Query arguments\<close>

text \<open>
  The loop of \<open>_parse_args\<close> over the parts of the query string. \<open>key, value =
  part.split("=")\<close> unpacks exactly two fields and raises ValueError otherwise.
\<close>

fun parse_parts :: "string list \<Rightarrow> (string \<times> string) list \<Rightarrow> py_error + (string \<times> string) list" where
  "parse_parts [] args = Inr args"
| "parse_parts (part # parts) args =
     (if CHR ''='' \<in> set part then
        (case split_chr (CHR ''='') part of
           [key, val] \<Rightarrow> parse_parts parts (dict_set key val args)
         | _ \<Rightarrow> Inl (ValueError ''too many values to unpack (expected 2)''))
      else parse_parts parts args)"

definition parse_args :: "string \<Rightarrow> py_error + (string \<times> string) list" where
  "parse_args path =
     (if CHR ''?'' \<notin> set path then Inr []
      else (case split_chr (CHR ''?'') path of
              _ # query_string # _ \<Rightarrow> parse_parts (split_chr (CHR ''&'') query_string) []
            | _ \<Rightarrow> Inl (IndexError ''list index out of range'')))"

text \<open>The first line of \<open>_handle_request\<close>: \<open>handler.path.split("?")[0].rstrip("/")\<close>.\<close>

definition request_path :: "string \<Rightarrow> string" where
  "request_path raw =
     (case split_chr (CHR ''?'') raw of
        [] \<Rightarrow> []
      | front # _ \<Rightarrow> rstrip_chr (CHR ''/'') front)"

section \<open>Converters\<close>

text \<open>
  The values a handler receives. \<open>PyFloat\<close> carries the decimal text that \<open>float()\<close>
  was given: the rounding to a double is not modelled.
\<close>

datatype pyval = PyInt int | PyStr string | PyFloat string

definition is_digit :: "char \<Rightarrow> bool" where
  "is_digit c = (let n = (of_char c :: nat) in 48 \<le> n \<and> n \<le> 57)"

definition is_word :: "char \<Rightarrow> bool" where
  "is_word c =
     (let n = (of_char c :: nat)
      in (48 \<le> n \<and> n \<le> 57) \<or> (65 \<le> n \<and> n \<le> 90) \<or> (97 \<le> n \<and> n \<le> 122) \<or> n = 95)"

definition int_of_digits :: "string \<Rightarrow> int" where
  "int_of_digits s = foldl (\<lambda>acc c. 10 * acc + (int (of_char c) - 48)) 0 s"

record converter =
  regex :: string
  convert :: "string \<Rightarrow> py_error + pyval"

text \<open>\<open>int(value)\<close> is modelled on runs of digits, the only text \<open>\d+\<close> lets through.\<close>

definition IntConverter :: converter where
  "IntConverter =
     \<lparr> regex = [CHR 0x5C, CHR ''d'', CHR ''+''],
       convert = (\<lambda>v. if v \<noteq> [] \<and> list_all is_digit v then Inr (PyInt (int_of_digits v))
                      else Inl NotModelled) \<rparr>"

definition StringConverter :: converter where
  "StringConverter = \<lparr> regex = ''[^/]+'', convert = (\<lambda>v. Inr (PyStr v)) \<rparr>"

definition FloatConverter :: converter where
  "FloatConverter =
     \<lparr> regex = [CHR 0x5C, CHR ''d'', CHR ''+'', CHR 0x5C, CHR ''.'', CHR 0x5C, CHR ''d'', CHR ''+''],
       convert = (\<lambda>v. Inr (PyFloat v)) \<rparr>"

definition converters :: "(string \<times> converter) list" where
  "converters =
     [(''int'', IntConverter), (''string'', StringConverter), (''float'', FloatConverter)]"

text \<open>\<open>converters[name]\<close>: a missing key raises KeyError.\<close>

definition converters_at :: "string \<Rightarrow> py_error + converter" where
  "converters_at name =
     (case dict_get converters name of
        None \<Rightarrow> Inl (KeyError name)
      | Some c \<Rightarrow> Inr c)"

section \<open>The regular expressions of \<open>re\<close> that the router builds\<close>

text \<open>
  The fragment of Python's pattern syntax that is modelled: a character that is not
  special, the dot, \<open>\d\<close>, \<open>\.\<close>, \<open>[^/]\<close>, each with an optional greedy \<open>+\<close>,
  and named groups \<open>(?P<name>...)\<close> over these. Any other pattern is \<open>NotModelled\<close>.
\<close>

datatype atom = Lit char | AnyChar | Digit | NotSlash

datatype piece = One atom | Plus atom

datatype node = Piece piece | Group string "piece list"

definition re_special :: "char \<Rightarrow> bool" where
  "re_special c = (c \<in> set ''.^$*+?{}[]|()'' \<or> c = CHR 0x5C)"

fun strip_prefix :: "string \<Rightarrow> string \<Rightarrow> string option" where
  "strip_prefix [] s = Some s"
| "strip_prefix (p # ps) [] = None"
| "strip_prefix (p # ps) (c # cs) = (if p = c then strip_prefix ps cs else None)"

definition parse_atom :: "string \<Rightarrow> (atom \<times> string) option" where
  "parse_atom s =
     (case strip_prefix [CHR 0x5C, CHR ''d''] s of
        Some r \<Rightarrow> Some (Digit, r)
      | None \<Rightarrow>
     (case strip_prefix [CHR 0x5C, CHR ''.''] s of
        Some r \<Rightarrow> Some (Lit (CHR ''.''), r)
      | None \<Rightarrow>
     (case strip_prefix ''[^/]'' s of
        Some r \<Rightarrow> Some (NotSlash, r)
      | None \<Rightarrow>
     (case s of
        [] \<Rightarrow> None
      | c # r \<Rightarrow>
          if c = CHR ''.'' then Some (AnyChar, r)
          else if re_special c then None
          else Some (Lit c, r)))))"

definition parse_piece :: "string \<Rightarrow> (piece \<times> string) option" where
  "parse_piece s =
     (case parse_atom s of
        None \<Rightarrow> None
      | Some (a, r) \<Rightarrow>
          (case strip_prefix ''+'' r of
             Some r' \<Rightarrow> Some (Plus a, r')
           | None \<Rightarrow> Some (One a, r)))"

lemma strip_prefix_length: "strip_prefix p s = Some r \<Longrightarrow> length r + length p = length s"
  by (induction p s rule: strip_prefix.induct) (auto split: if_splits)

lemma parse_atom_shorter: "parse_atom s = Some (a, r) \<Longrightarrow> length r < length s"
  by (auto simp: parse_atom_def split: option.splits list.splits if_splits
           dest!: strip_prefix_length)

lemma parse_piece_shorter: "parse_piece s = Some (p, r) \<Longrightarrow> length r < length s"
  by (auto simp: parse_piece_def split: option.splits prod.splits
           dest!: strip_prefix_length parse_atom_shorter)

text \<open>The body of a group, up to its closing parenthesis.\<close>

function parse_body :: "string \<Rightarrow> (piece list \<times> string) option" where
  "parse_body s =
     (case strip_prefix '')'' s of
        Some r \<Rightarrow> Some ([], r)
      | None \<Rightarrow>
          (case parse_piece s of
             None \<Rightarrow> None
           | Some (p, r) \<Rightarrow>
               (case parse_body r of
                  None \<Rightarrow> None
                | Some (ps, r') \<Rightarrow> Some (p # ps, r'))))"
  by pat_completeness auto
termination
  by (relation "measure length") (auto dest: parse_piece_shorter)

declare parse_body.simps [simp del]

lemma parse_body_shorter: "parse_body s = Some (ps, r) \<Longrightarrow> length r < length s"
proof (induction s arbitrary: ps r rule: parse_body.induct)
  case (1 s)
  show ?case
  proof (cases "strip_prefix '')'' s")
    case (Some r0)
    with "1.prems" have "r = r0" by (simp add: parse_body.simps [of s])
    with Some show ?thesis by (auto dest: strip_prefix_length)
  next
    case None
    with "1.prems" obtain p r1 ps' where
      pp: "parse_piece s = Some (p, r1)" and pb: "parse_body r1 = Some (ps', r)"
      by (auto simp: parse_body.simps [of s] split: option.splits prod.splits)
    from "1.IH" [OF None pp refl pb] have "length r < length r1" .
    with parse_piece_shorter [OF pp] show ?thesis by simp
  qed
qed

text \<open>A group name must be an identifier.\<close>

definition is_identifier :: "string \<Rightarrow> bool" where
  "is_identifier s =
     (case s of
        [] \<Rightarrow> False
      | c # cs \<Rightarrow> is_word c \<and> \<not> is_digit c \<and> list_all is_word cs)"

text \<open>
  The parser of \<open>re\<close> reads the pattern from left to right and raises at the first
  fault; a group's name is checked, and its redefinition refused, when the group opens.
\<close>

function parse_re :: "string \<Rightarrow> string list \<Rightarrow> py_error + node list" where
  "parse_re s names =
     (if s = [] then Inr []
      else
        (case strip_prefix ''(?P<'' s of
           Some r \<Rightarrow>
             (let name = takeWhile (\<lambda>c. c \<noteq> CHR ''>'') r;
                  after = dropWhile (\<lambda>c. c \<noteq> CHR ''>'') r
              in if name = [] then Inl (ReError MissingGroupName)
                 else if after = [] then Inl (ReError UnterminatedName)
                 else if \<not> is_identifier name then Inl (ReError (BadGroupName name))
                 else if name \<in> set names then Inl (ReError (Redefinition name))
                 else
                   (case parse_body (tl after) of
                      None \<Rightarrow> Inl NotModelled
                    | Some (body, r') \<Rightarrow>
                        (case parse_re r' (names @ [name]) of
                           Inl e \<Rightarrow> Inl e
                         | Inr ns \<Rightarrow> Inr (Group name body # ns))))
         | None \<Rightarrow>
             (case parse_piece s of
                None \<Rightarrow> Inl NotModelled
              | Some (p, r) \<Rightarrow>
                  (case parse_re r names of
                     Inl e \<Rightarrow> Inl e
                   | Inr ns \<Rightarrow> Inr (Piece p # ns)))))"
  by pat_completeness auto
termination
proof (relation "measure (\<lambda>(s, names). length s)")
  show "wf (measure (\<lambda>(s, names). length s))" by simp
next
  fix s :: string and names r name after x body r'
  assume "strip_prefix ''(?P<'' s = Some r"
    and "after = dropWhile (\<lambda>c. c \<noteq> CHR ''>'') r"
    and "parse_body (tl after) = Some x" and "(body, r') = x"
  then have "length r' < length (tl after)" "length after \<le> length r" "length r + 4 = length s"
    using strip_prefix_length [of "''(?P<''" s r]
    by (auto dest: parse_body_shorter simp: length_dropWhile_le)
  then show "((r', names @ [name]), (s, names)) \<in> measure (\<lambda>(s, names). length s)"
    by simp
next
  fix s :: string and names x p r
  assume "parse_piece s = Some x" and "(p, r) = x"
  then show "((r, names), (s, names)) \<in> measure (\<lambda>(s, names). length s)"
    by (auto dest: parse_piece_shorter)
qed

declare parse_re.simps [simp del]

text \<open>
  Matching backtracks: every function lists the ways to match a prefix of the text, the
  way \<open>re\<close> tries first at the head. A greedy \<open>+\<close> tries the longest run first.
\<close>

fun match_atom :: "atom \<Rightarrow> char \<Rightarrow> bool" where
  "match_atom (Lit c) x = (x = c)"
| "match_atom AnyChar x = (x \<noteq> CHR 0x0A)"
| "match_atom Digit x = is_digit x"
| "match_atom NotSlash x = (x \<noteq> CHR ''/'')"

fun match_piece :: "piece \<Rightarrow> string \<Rightarrow> (string \<times> string) list" where
  "match_piece (One a) s =
     (case s of
        [] \<Rightarrow> []
      | c # r \<Rightarrow> if match_atom a c then [([c], r)] else [])"
| "match_piece (Plus a) s =
     (let n = length (takeWhile (match_atom a) s)
      in map (\<lambda>k. (take k s, drop k s)) (rev [1..<Suc n]))"

fun match_pieces :: "piece list \<Rightarrow> string \<Rightarrow> (string \<times> string) list" where
  "match_pieces [] s = [([], s)]"
| "match_pieces (p # ps) s =
     concat (map (\<lambda>(u, r). map (\<lambda>(v, r'). (u @ v, r')) (match_pieces ps r)) (match_piece p s))"

fun match_nodes :: "node list \<Rightarrow> string \<Rightarrow> (string list \<times> string) list" where
  "match_nodes [] s = [([], s)]"
| "match_nodes (Piece p # ns) s =
     concat (map (\<lambda>(u, r). match_nodes ns r) (match_piece p s))"
| "match_nodes (Group name body # ns) s =
     concat (map (\<lambda>(u, r). map (\<lambda>(gs, r'). (u # gs, r')) (match_nodes ns r))
                 (match_pieces body s))"

text \<open>
  \<open>re.fullmatch(pattern, text)\<close>: the pattern is compiled, which may raise; the result
  is \<open>match.groups()\<close> of the first way that uses up the text, or None.
\<close>

definition fullmatch :: "string \<Rightarrow> string \<Rightarrow> py_error + string list option" where
  "fullmatch pattern text =
     (case parse_re pattern [] of
        Inl e \<Rightarrow> Inl e
      | Inr ns \<Rightarrow>
          (case filter (\<lambda>(gs, r). r = []) (match_nodes ns text) of
             [] \<Rightarrow> Inr None
           | (gs, r) # _ \<Rightarrow> Inr (Some gs)))"

section \<open>Compiling a URL pattern\<close>

text \<open>
  \<open><(int|string|float):(\w+)>\<close> at the head of a text: the converter name, the variable
  name and the text after the placeholder.
\<close>

definition match_conv :: "string \<Rightarrow> (string \<times> string) option" where
  "match_conv s =
     (case strip_prefix ''int'' s of
        Some r \<Rightarrow> Some (''int'', r)
      | None \<Rightarrow>
     (case strip_prefix ''string'' s of
        Some r \<Rightarrow> Some (''string'', r)
      | None \<Rightarrow>
     (case strip_prefix ''float'' s of
        Some r \<Rightarrow> Some (''float'', r)
      | None \<Rightarrow> None)))"

definition match_typed :: "string \<Rightarrow> (string \<times> string \<times> string) option" where
  "match_typed s =
     (case strip_prefix ''<'' s of
        None \<Rightarrow> None
      | Some s1 \<Rightarrow>
     (case match_conv s1 of
        None \<Rightarrow> None
      | Some (conv, s2) \<Rightarrow>
     (case strip_prefix '':'' s2 of
        None \<Rightarrow> None
      | Some s3 \<Rightarrow>
          (let var = takeWhile is_word s3
           in if var = [] then None
              else (case strip_prefix ''>'' (dropWhile is_word s3) of
                      None \<Rightarrow> None
                    | Some rest \<Rightarrow> Some (conv, var, rest))))))"

text \<open>\<open><(\w+)>\<close> at the head of a text: the variable name and the text after it.\<close>

definition match_untyped :: "string \<Rightarrow> (string \<times> string) option" where
  "match_untyped s =
     (case strip_prefix ''<'' s of
        None \<Rightarrow> None
      | Some s1 \<Rightarrow>
          (let var = takeWhile is_word s1
           in if var = [] then None
              else (case strip_prefix ''>'' (dropWhile is_word s1) of
                      None \<Rightarrow> None
                    | Some rest \<Rightarrow> Some (var, rest))))"

lemma match_conv_shorter: "match_conv s = Some (c, r) \<Longrightarrow> length r < length s"
  by (auto simp: match_conv_def split: option.splits dest!: strip_prefix_length)

lemma match_typed_shorter:
  assumes "match_typed s = Some (conv, var, rest)"
  shows "length rest < length s"
proof -
  from assms obtain s1 s2 s3 where
    a: "strip_prefix ''<'' s = Some s1" and b: "match_conv s1 = Some (conv, s2)" and
    c: "strip_prefix '':'' s2 = Some s3" and
    d: "strip_prefix ''>'' (dropWhile is_word s3) = Some rest"
    by (auto simp: match_typed_def Let_def split: option.splits prod.splits if_splits)
  have "length rest < length (dropWhile is_word s3)"
    using strip_prefix_length [OF d] by simp
  also have "\<dots> \<le> length s3" by (rule length_dropWhile_le)
  also have "\<dots> \<le> length s2" using strip_prefix_length [OF c] by simp
  also have "\<dots> \<le> length s1" using match_conv_shorter [OF b] by simp
  also have "\<dots> \<le> length s" using strip_prefix_length [OF a] by simp
  finally show ?thesis .
qed

lemma match_untyped_shorter:
  assumes "match_untyped s = Some (var, rest)"
  shows "length rest < length s"
proof -
  from assms obtain s1 where
    a: "strip_prefix ''<'' s = Some s1" and
    d: "strip_prefix ''>'' (dropWhile is_word s1) = Some rest"
    by (auto simp: match_untyped_def Let_def split: option.splits if_splits)
  have "length rest < length (dropWhile is_word s1)"
    using strip_prefix_length [OF d] by simp
  also have "\<dots> \<le> length s1" by (rule length_dropWhile_le)
  also have "\<dots> \<le> length s" using strip_prefix_length [OF a] by simp
  finally show ?thesis .
qed

text \<open>\<open>_replace\<close>: the named group of a typed placeholder.\<close>

definition replace :: "string \<Rightarrow> string \<Rightarrow> py_error + string" where
  "replace conv var =
     (case converters_at conv of
        Inl e \<Rightarrow> Inl e
      | Inr c \<Rightarrow> Inr (''(?P<'' @ var @ ''>'' @ regex c @ '')''))"

text \<open>
  \<open>re.sub(r"<(int|string|float):(\w+)>", self._replace, url)\<close>: the matches are taken
  from left to right and do not overlap; the text between them is kept.
\<close>

function sub_typed :: "string \<Rightarrow> py_error + string" where
  "sub_typed [] = Inr []"
| "sub_typed (c # cs) =
     (case match_typed (c # cs) of
        Some (conv, var, rest) \<Rightarrow>
          (case replace conv var of
             Inl e \<Rightarrow> Inl e
           | Inr g \<Rightarrow> (case sub_typed rest of Inl e \<Rightarrow> Inl e | Inr t \<Rightarrow> Inr (g @ t)))
      | None \<Rightarrow> (case sub_typed cs of Inl e \<Rightarrow> Inl e | Inr t \<Rightarrow> Inr (c # t)))"
  by pat_completeness auto
termination
  by (relation "measure length") (auto dest: match_typed_shorter)

text \<open>
  \<open>re.findall(r"<(int|string|float):\w+>", url)\<close>: the pattern has one group, so the
  result is the list of the converter names, each a string.
\<close>

function findall_typed :: "string \<Rightarrow> string list" where
  "findall_typed [] = []"
| "findall_typed (c # cs) =
     (case match_typed (c # cs) of
        Some (conv, var, rest) \<Rightarrow> conv # findall_typed rest
      | None \<Rightarrow> findall_typed cs)"
  by pat_completeness auto
termination
  by (relation "measure length") (auto dest: match_typed_shorter)

text \<open>
  \<open>re.sub(r"<(\w+)>", repl, url)\<close> with the fixed text \<open>repl\<close>, which holds no
  backslash and so is inserted as it is.
\<close>

function sub_untyped :: "string \<Rightarrow> string \<Rightarrow> string" where
  "sub_untyped repl [] = []"
| "sub_untyped repl (c # cs) =
     (case match_untyped (c # cs) of
        Some (var, rest) \<Rightarrow> repl @ sub_untyped repl rest
      | None \<Rightarrow> c # sub_untyped repl cs)"
  by pat_completeness auto
termination
  by (relation "measure (\<lambda>(repl, s). length s)") (auto dest: match_untyped_shorter)

section \<open>Handlers, the wire and the template\<close>

text \<open>
  A handler is called with the positional parameters and can read \<open>Request.args\<close>, the
  first argument here. It returns a body, raises an \<open>Exception\<close> (\<open>Raises\<close> carries
  \<open>str(e)\<close>), or raises something that is no \<open>Exception\<close>.
\<close>

datatype outcome = Returns string | Raises string | RaisesBase string

type_synonym func = "(string \<times> string) list \<Rightarrow> pyval list \<Rightarrow> outcome"

text \<open>What a request does, in order: the calls on the HTTP handler and the call of the route's handler.\<close>

datatype event =
    SendResponse nat
  | SendHeader string string
  | EndHeaders
  | Invoke func "pyval list"
  | Write string

record reply =
  events :: "event list"
  raised :: "py_error option"

text \<open>\<open>s.replace(old, new)\<close>.\<close>

function replace_ne :: "string \<Rightarrow> string \<Rightarrow> string \<Rightarrow> string" where
  "replace_ne old new [] = []"
| "replace_ne old new (c # cs) =
     (if old = [] then c # cs
      else (case strip_prefix old (c # cs) of
              Some rest \<Rightarrow> new @ replace_ne old new rest
            | None \<Rightarrow> c # replace_ne old new cs))"
  by pat_completeness auto
termination
  by (relation "measure (\<lambda>(old, new, s). length s)")
     (auto dest!: strip_prefix_length simp: neq_Nil_conv)

definition str_replace :: "string \<Rightarrow> string \<Rightarrow> string \<Rightarrow> string" where
  "str_replace old new s =
     (if old = [] then new @ concat (map (\<lambda>c. c # new) s) else replace_ne old new s)"

text \<open>
  \<open>render\<close> in \<open>utils.py\<close>. The file system is a parameter: \<open>fs name\<close> is the content of
  the file, None when \<open>open\<close> fails.
\<close>

definition render :: "(string \<Rightarrow> string option) \<Rightarrow> string \<Rightarrow> (string \<times> string) list \<Rightarrow> py_error + string" where
  "render fs template args =
     (case fs template of
        None \<Rightarrow> Inl (FileNotFoundError template)
      | Some content \<Rightarrow>
          Inr (fold (\<lambda>(key, val) content. str_replace (''{{ '' @ key @ '' }}'') val content)
                    args content))"

definition error_html :: string where
  "error_html = ''star/templates/error.html''"

definition headers_200 :: "event list" where
  "headers_200 = [SendResponse 200, SendHeader ''Content-type'' ''text/html'', EndHeaders]"

text \<open>\<open>_send_response\<close>: the status line and the headers go out before the handler runs.\<close>

definition send_response ::
  "(string \<Rightarrow> string option) \<Rightarrow> (string \<times> string) list \<Rightarrow> func \<Rightarrow> pyval list \<Rightarrow> reply" where
  "send_response fs request_args f params =
     (let sent = headers_200 @ [Invoke f params]
      in case f request_args params of
           Returns result \<Rightarrow> \<lparr> events = sent @ [Write result], raised = None \<rparr>
         | Raises msg \<Rightarrow>
             (case render fs error_html
                     [(''title'', ''500 Internal Server Error''), (''message'', msg)] of
                Inl e \<Rightarrow> \<lparr> events = sent, raised = Some e \<rparr>
              | Inr result \<Rightarrow> \<lparr> events = sent @ [Write result], raised = None \<rparr>)
         | RaisesBase msg \<Rightarrow> \<lparr> events = sent, raised = Some (BaseExc msg) \<rparr>)"

text \<open>The end of \<open>_handle_request\<close>: no route matched.\<close>

definition not_found :: "(string \<Rightarrow> string option) \<Rightarrow> reply" where
  "not_found fs =
     (let sent = [SendResponse 404, SendHeader ''Content-type'' ''text/html'', EndHeaders]
      in case render fs error_html
                [(''title'', ''404 Not Found''), (''message'', ''Page Not Found'')] of
           Inl e \<Rightarrow> \<lparr> events = sent, raised = Some e \<rparr>
         | Inr result \<Rightarrow> \<lparr> events = sent @ [Write result], raised = None \<rparr>)"

section \<open>Matching one route\<close>

text \<open>\<open>c[0]\<close> on a string: its first character, as a string.\<close>

definition index0 :: "string \<Rightarrow> py_error + string" where
  "index0 c =
     (case c of
        [] \<Rightarrow> Inl (IndexError ''string index out of range'')
      | x # _ \<Rightarrow> Inr [x])"

text \<open>A list comprehension whose element expression may raise: the first raise ends it.\<close>

fun collect :: "('a \<Rightarrow> py_error + 'b) \<Rightarrow> 'a list \<Rightarrow> py_error + 'b list" where
  "collect g [] = Inr []"
| "collect g (x # xs) =
     (case g x of
        Inl e \<Rightarrow> Inl e
      | Inr y \<Rightarrow> (case collect g xs of Inl e \<Rightarrow> Inl e | Inr ys \<Rightarrow> Inr (y # ys)))"

text \<open>\<open>converters[conv].convert(value)\<close>.\<close>

definition convert_value :: "string \<times> string \<Rightarrow> py_error + pyval" where
  "convert_value cv =
     (case converters_at (fst cv) of
        Inl e \<Rightarrow> Inl e
      | Inr c \<Rightarrow> convert c (snd cv))"

text \<open>
  The three rules of the loop body that can set \<open>matched\<close> after the exact comparison,
  each on the pair \<open>(matched, params)\<close>.
\<close>

definition typed_rule :: "string \<Rightarrow> string \<Rightarrow> bool \<times> pyval list \<Rightarrow> py_error + bool \<times> pyval list" where
  "typed_rule path normalized_url st =
     (if path \<noteq> ''/'' \<and> \<not> fst st then
        (case sub_typed normalized_url of
           Inl e \<Rightarrow> Inl e
         | Inr regex_pattern \<Rightarrow>
             (case fullmatch regex_pattern path of
                Inl e \<Rightarrow> Inl e
              | Inr None \<Rightarrow> Inr st
              | Inr (Some groups) \<Rightarrow>
                  (case collect index0 (findall_typed normalized_url) of
                     Inl e \<Rightarrow> Inl e
                   | Inr convs \<Rightarrow>
                       (case collect convert_value (zip convs groups) of
                          Inl e \<Rightarrow> Inl e
                        | Inr params \<Rightarrow> Inr (True, params)))))
      else Inr st)"

definition untyped_rule :: "string \<Rightarrow> string \<Rightarrow> bool \<times> pyval list \<Rightarrow> py_error + bool \<times> pyval list" where
  "untyped_rule path normalized_url st =
     (if path \<noteq> ''/'' \<and> \<not> fst st then
        (case converters_at ''string'' of
           Inl e \<Rightarrow> Inl e
         | Inr c \<Rightarrow>
             (case fullmatch (sub_untyped (''(?P<var>'' @ regex c @ '')'') normalized_url) path of
                Inl e \<Rightarrow> Inl e
              | Inr None \<Rightarrow> Inr st
              | Inr (Some groups) \<Rightarrow> Inr (True, map PyStr groups)))
      else Inr st)"

definition query_rule :: "string \<Rightarrow> (string \<times> string) list \<Rightarrow> string \<Rightarrow> bool \<times> pyval list \<Rightarrow> bool \<times> pyval list" where
  "query_rule path request_args normalized_url st =
     (if \<not> fst st \<and> request_args \<noteq> [] \<and> path = normalized_url then (True, snd st) else st)"

text \<open>
  One pass of the loop body for the route \<open>url\<close>. Every pass starts with \<open>matched\<close>
  false and \<open>params\<close> empty, since a pass that sets either returns. The result is the
  parameters when the route matched.
\<close>

definition match_route :: "string \<Rightarrow> (string \<times> string) list \<Rightarrow> string \<Rightarrow> py_error + pyval list option" where
  "match_route path request_args url =
     (let normalized_url = rstrip_chr (CHR ''/'') url;
          st0 = (path = normalized_url, [])
      in case typed_rule path normalized_url st0 of
           Inl e \<Rightarrow> Inl e
         | Inr st1 \<Rightarrow>
             (case untyped_rule path normalized_url st1 of
                Inl e \<Rightarrow> Inl e
              | Inr st2 \<Rightarrow>
                  (let st3 = query_rule path request_args normalized_url st2
                   in if fst st3 then Inr (Some (snd st3)) else Inr None)))"

section \<open>Dispatch\<close>

text \<open>\<open>for url, func in routes.items()\<close>: the first route that matches is served.\<close>

fun find_route :: "string \<Rightarrow> (string \<times> string) list \<Rightarrow> (string \<times> func) list \<Rightarrow> py_error + (func \<times> pyval list) option" where
  "find_route path request_args [] = Inr None"
| "find_route path request_args ((url, f) # routes) =
     (case match_route path request_args url of
        Inl e \<Rightarrow> Inl e
      | Inr (Some params) \<Rightarrow> Inr (Some (f, params))
      | Inr None \<Rightarrow> find_route path request_args routes)"

text \<open>\<open>_handle_request\<close> on the raw request path \<open>handler.path\<close>.\<close>

definition handle_request :: "(string \<Rightarrow> string option) \<Rightarrow> string \<Rightarrow> (string \<times> func) list \<Rightarrow> reply" where
  "handle_request fs raw routes =
     (let path = request_path raw
      in case parse_args raw of
           Inl e \<Rightarrow> \<lparr> events = [], raised = Some e \<rparr>
         | Inr request_args \<Rightarrow>
             (case find_route path request_args routes of
                Inl e \<Rightarrow> \<lparr> events = [], raised = Some e \<rparr>
              | Inr (Some (f, params)) \<Rightarrow> send_response fs request_args f params
              | Inr None \<Rightarrow> not_found fs))"

section \<open>Registration\<close>

record star =
  get_routes :: "(string \<times> func) list"
  post_routes :: "(string \<times> func) list"

definition init :: star where
  "init = \<lparr> get_routes = [], post_routes = [] \<rparr>"

text \<open>
  The loop of \<open>wrapper\<close> over the method names. A route stored before an invalid name is
  met stays stored, so the state is returned with the error.
\<close>

fun register :: "string \<Rightarrow> func \<Rightarrow> string list \<Rightarrow> star \<Rightarrow> py_error option \<times> star" where
  "register url f [] st = (None, st)"
| "register url f (m # ms) st =
     (let m_upper = upper m
      in if m_upper = ''GET'' then
           register url f ms (st\<lparr>get_routes := dict_set (rstrip_chr (CHR ''/'') url) f (get_routes st)\<rparr>)
         else if m_upper = ''POST'' then
           register url f ms (st\<lparr>post_routes := dict_set (rstrip_chr (CHR ''/'') url) f (post_routes st)\<rparr>)
         else (Some (ValueError (''Invalid method: '' @ m)), st))"

text \<open>\<open>route(url, method)(func)\<close>: \<open>method\<close> is one name or a list of names.\<close>

datatype method_arg = Name string | Names "string list"

definition route :: "string \<Rightarrow> method_arg \<Rightarrow> func \<Rightarrow> star \<Rightarrow> py_error option \<times> star" where
  "route url method f st =
     (case method of
        Name m \<Rightarrow> register url f [m] st
      | Names ms \<Rightarrow> register url f ms st)"

definition get :: "string \<Rightarrow> func \<Rightarrow> star \<Rightarrow> py_error option \<times> star" where
  "get url = route url (Name ''GET'')"

definition post :: "string \<Rightarrow> func \<Rightarrow> star \<Rightarrow> py_error option \<times> star" where
  "post url = route url (Name ''POST'')"

definition do_GET :: "(string \<Rightarrow> string option) \<Rightarrow> star \<Rightarrow> string \<Rightarrow> reply" where
  "do_GET fs st raw = handle_request fs raw (get_routes st)"

definition do_POST :: "(string \<Rightarrow> string option) \<Rightarrow> star \<Rightarrow> string \<Rightarrow> reply" where
  "do_POST fs st raw = handle_request fs raw (post_routes st)"

section \<open>Sample handlers and files\<close>

definition page_a :: func where
  "page_a request_args params = Returns ''a''"

definition page_b :: func where
  "page_b request_args params = Returns ''b''"

definition failing :: func where
  "failing request_args params = Raises ''boom''"

definition sample_app :: star where
  "sample_app =
     \<lparr> get_routes = [(''/w'', failing), (''/x'', failing), (''/y'', failing)],
       post_routes = [(''/x'', failing), (''/z'', failing)] \<rparr>"

definition no_files :: "string \<Rightarrow> string option" where
  "no_files name = None"

definition templates :: "string \<Rightarrow> string option" where
  "templates name =
     (if name = error_html then Some ''<h1>{{ title }}</h1><p>{{ message }}</p>'' else None)"

section \<open>Patterns as segments\<close>

text \<open>
  A way to write down a URL pattern: literal text and untyped placeholders \<open><name>\<close>.
  A segment is plain when its text holds no character that is special in a regular
  expression and no \<open><\<close>, and when the name of a placeholder is a non-empty run of
  word characters.
\<close>

datatype seg = Text string | Hole string

fun seg_text :: "seg \<Rightarrow> string" where
  "seg_text (Text t) = t"
| "seg_text (Hole n) = ''<'' @ n @ ''>''"

definition pattern :: "seg list \<Rightarrow> string" where
  "pattern segs = concat (map seg_text segs)"

fun plain_seg :: "seg \<Rightarrow> bool" where
  "plain_seg (Text t) = list_all (\<lambda>c. \<not> re_special c \<and> c \<noteq> CHR ''<'') t"
| "plain_seg (Hole n) = (n \<noteq> [] \<and> list_all is_word n)"

fun is_hole :: "seg \<Rightarrow> bool" where
  "is_hole (Text t) = False"
| "is_hole (Hole n) = True"

section \<open>Path normalisation\<close>

lemma split_chr_takeWhile:
  "split_chr sep s = takeWhile (\<lambda>c. c \<noteq> sep) s # (case dropWhile (\<lambda>c. c \<noteq> sep) s of [] \<Rightarrow> [] | _ # r \<Rightarrow> split_chr sep r)"
  by (induction s) (auto split: list.splits)

lemma request_path_eq:
  "request_path raw = rstrip_chr (CHR ''/'') (takeWhile (\<lambda>c. c \<noteq> CHR ''?'') raw)"
  by (subst request_path_def, subst split_chr_takeWhile) simp

lemma rstrip_chr_decomp:
  "s = rstrip_chr c s @ replicate (length (takeWhile (\<lambda>x. x = c) (rev s))) c"
proof -
  have "takeWhile (\<lambda>x. x = c) (rev s) = replicate (length (takeWhile (\<lambda>x. x = c) (rev s))) c"
    by (rule replicate_length_same [symmetric]) (auto dest: set_takeWhileD)
  moreover have "rev s = takeWhile (\<lambda>x. x = c) (rev s) @ dropWhile (\<lambda>x. x = c) (rev s)"
    by simp
  ultimately have "rev s = replicate (length (takeWhile (\<lambda>x. x = c) (rev s))) c @ dropWhile (\<lambda>x. x = c) (rev s)"
    by simp
  then have "rev (rev s) = rev (replicate (length (takeWhile (\<lambda>x. x = c) (rev s))) c @ dropWhile (\<lambda>x. x = c) (rev s))"
    by simp
  then show ?thesis by (simp add: rstrip_chr_def)
qed

lemma rstrip_chr_last: "c \<notin> set (take 1 (rev (rstrip_chr c s)))"
proof -
  have e: "rev (rstrip_chr c s) = dropWhile (\<lambda>x. x = c) (rev s)"
    by (simp add: rstrip_chr_def)
  show ?thesis
  proof (cases "dropWhile (\<lambda>x. x = c) (rev s)")
    case Nil
    show ?thesis unfolding e Nil by simp
  next
    case (Cons x xs)
    then have "x \<noteq> c"
      using hd_dropWhile [of "\<lambda>x. x = c" "rev s"] by simp
    then show ?thesis unfolding e Cons by simp
  qed
qed

text \<open>
  C2, as the spec states it: normalisation strips exactly one trailing slash, so that
  \<open>/a//\<close> would become \<open>/a/\<close>. The code calls \<open>rstrip("/")\<close>, which removes both.
\<close>

theorem request_path_double_slash:
  "request_path ''/a//'' = ''/a'' \<and> request_path ''/a//'' \<noteq> ''/a/''"
  by code_simp

text \<open>
  C2, amended: the path is the text before the first \<open>?\<close> without any of its trailing
  slashes. That text is the path followed by slashes only, so every slash that is
  followed by another character is kept, and the path does not end in a slash.
\<close>

theorem request_path_strips_every_trailing_slash:
  "takeWhile (\<lambda>c. c \<noteq> CHR ''?'') raw =
     request_path raw @
       replicate (length (takeWhile (\<lambda>x. x = CHR ''/'') (rev (takeWhile (\<lambda>c. c \<noteq> CHR ''?'') raw))))
         (CHR ''/'')
   \<and> CHR ''/'' \<notin> set (take 1 (rev (request_path raw)))"
  unfolding request_path_eq using rstrip_chr_decomp rstrip_chr_last by blast

section \<open>Query strings with a second equals sign\<close>

text \<open>
  C3: each part of the query string is split on the first \<open>=\<close> only. On the request
  \<open>/search?q=a=b\<close> the claim gives the argument \<open>q\<close> the value \<open>a=b\<close>; the code splits
  the part on every \<open>=\<close>, unpacks three fields into two names and raises ValueError,
  before any route is tried and before anything is sent.
\<close>

theorem parse_args_second_equals_raises:
  "parse_args ''/search?q=a=b'' = Inl (ValueError ''too many values to unpack (expected 2)'')
   \<and> handle_request fs ''/search?q=a=b'' routes =
       \<lparr> events = [], raised = Some (ValueError ''too many values to unpack (expected 2)'') \<rparr>"
proof -
  have "parse_args ''/search?q=a=b'' = Inl (ValueError ''too many values to unpack (expected 2)'')"
    by code_simp
  then show ?thesis by (simp add: handle_request_def)
qed

section \<open>Typed placeholders\<close>

lemma upper_GET: "upper ''GET'' = ''GET''"
  by code_simp

lemma upper_POST: "upper ''POST'' = ''POST''"
  by code_simp

lemma match_user_42: "match_route ''/user/42'' [] ''/user/<int:id>'' = Inl (KeyError ''i'')"
  by code_simp

lemma match_user_abc: "match_route ''/user/abc'' [] ''/user/<int:id>'' = Inr None"
  by code_simp

text \<open>
  C1: with the GET route \<open>/user/<int:id>\<close> registered, the request \<open>/user/42\<close> calls the
  handler with the integer 42. In the code the path matches the compiled pattern, but
  \<open>re.findall\<close> returns the converter names as strings, \<open>c[0]\<close> takes the first
  character of \<open>int\<close>, and \<open>converters['i']\<close> raises KeyError: nothing is sent and the
  handler is not called.
\<close>

theorem typed_route_raises_KeyError:
  "do_GET fs (snd (get ''/user/<int:id>'' h init)) ''/user/42'' =
     \<lparr> events = [], raised = Some (KeyError ''i'') \<rparr>"
proof -
  have r: "rstrip_chr (CHR ''/'') ''/user/<int:id>'' = ''/user/<int:id>''" by code_simp
  have t: "get_routes (snd (get ''/user/<int:id>'' h init)) = [(''/user/<int:id>'', h)]"
    by (simp add: get_def route_def upper_GET r init_def)
  have p: "request_path ''/user/42'' = ''/user/42''" by code_simp
  have a: "parse_args ''/user/42'' = Inr []" by code_simp
  show ?thesis
    by (simp add: do_GET_def t handle_request_def p a match_user_42)
qed

lemma typed_rule_matched: "typed_rule path nurl (True, ps) = Inr (True, ps)"
  by (simp add: typed_rule_def)

lemma untyped_rule_matched: "untyped_rule path nurl (True, ps) = Inr (True, ps)"
  by (simp add: untyped_rule_def)

lemma match_route_exact: "path = rstrip_chr (CHR ''/'') url \<Longrightarrow> match_route path args url = Inr (Some [])"
  by (simp add: match_route_def typed_rule_matched untyped_rule_matched query_rule_def)

lemma typed_rule_fst: "typed_rule path nurl (False, []) = Inr st \<Longrightarrow> st = (False, []) \<or> fst st"
  by (auto simp: typed_rule_def split: if_splits sum.splits option.splits)

lemma untyped_rule_fst: "untyped_rule path nurl (False, []) = Inr st \<Longrightarrow> st = (False, []) \<or> fst st"
  by (auto simp: untyped_rule_def split: if_splits sum.splits option.splits)

lemma match_route_args: "match_route path args url = match_route path [] url"
proof (cases "path = rstrip_chr (CHR ''/'') url")
  case True
  then show ?thesis by (simp add: match_route_exact)
next
  case False
  then show ?thesis
    by (auto simp: match_route_def query_rule_def Let_def split: sum.splits)
qed


section \<open>Responses\<close>

lemma render_error_page:
  "fs error_html = Some page \<Longrightarrow>
   render fs error_html [(''title'', t), (''message'', m)] =
     Inr (str_replace ''{{ message }}'' m (str_replace ''{{ title }}'' t page))"
  by (simp add: render_def)

lemma templates_error_html:
  "templates error_html = Some ''<h1>{{ title }}</h1><p>{{ message }}</p>''"
  by (simp add: templates_def)

lemma rstrip_boom: "rstrip_chr (CHR ''/'') ''/boom'' = ''/boom''"
  by code_simp

text \<open>
  C4: when the handler of the matched route raises an exception, the status line 200 and
  the headers have been sent before the call, and the body is the error template with
  \<open>{{ title }}\<close> replaced by \<open>500 Internal Server Error\<close> and \<open>{{ message }}\<close> by the
  text of the exception. The template file is assumed readable.
\<close>

theorem handler_failure_is_200_with_error_page:
  assumes "parse_args raw = Inr request_args"
    and "find_route (request_path raw) request_args routes = Inr (Some (f, params))"
    and "f request_args params = Raises msg"
    and "fs error_html = Some page"
  shows "handle_request fs raw routes =
     \<lparr> events = [SendResponse 200, SendHeader ''Content-type'' ''text/html'', EndHeaders,
                  Invoke f params,
                  Write (str_replace ''{{ message }}'' msg
                          (str_replace ''{{ title }}'' ''500 Internal Server Error'' page))],
       raised = None \<rparr>"
  using assms
  by (simp add: handle_request_def send_response_def headers_200_def render_error_page)

theorem handler_failure_is_200_with_error_page_witness:
  "handle_request templates ''/boom'' [(''/boom'', failing)] =
     \<lparr> events = [SendResponse 200, SendHeader ''Content-type'' ''text/html'', EndHeaders,
                  Invoke failing [],
                  Write ''<h1>500 Internal Server Error</h1><p>boom</p>''],
       raised = None \<rparr>"
proof -
  have a: "parse_args ''/boom'' = Inr []" by code_simp
  have p: "request_path ''/boom'' = ''/boom''" by code_simp
  have b: "find_route (request_path ''/boom'') [] [(''/boom'', failing)] = Inr (Some (failing, []))"
    by (simp add: p match_route_exact rstrip_boom)
  have c: "failing [] [] = Raises ''boom''" by (simp add: failing_def)
  have d: "str_replace ''{{ message }}'' ''boom''
             (str_replace ''{{ title }}'' ''500 Internal Server Error''
                ''<h1>{{ title }}</h1><p>{{ message }}</p>'') =
           ''<h1>500 Internal Server Error</h1><p>boom</p>''"
    by code_simp
  show ?thesis
    using handler_failure_is_200_with_error_page [where fs = templates and f = failing, OF a b c templates_error_html]
    by (simp only: d)
qed

text \<open>
  C8: when the scan of the table ends without a match, the status is 404, the body is
  the error template with the title \<open>404 Not Found\<close> and the message \<open>Page Not Found\<close>,
  and no handler is called. The template file is assumed readable.
\<close>

theorem no_match_is_404:
  assumes "parse_args raw = Inr request_args"
    and "find_route (request_path raw) request_args routes = Inr None"
    and "fs error_html = Some page"
  shows "handle_request fs raw routes =
     \<lparr> events = [SendResponse 404, SendHeader ''Content-type'' ''text/html'', EndHeaders,
                  Write (str_replace ''{{ message }}'' ''Page Not Found''
                          (str_replace ''{{ title }}'' ''404 Not Found'' page))],
       raised = None \<rparr>"
  using assms
  by (simp add: handle_request_def not_found_def render_error_page)

theorem no_match_is_404_witness:
  "handle_request templates ''/missing'' [(''/boom'', failing)] =
     \<lparr> events = [SendResponse 404, SendHeader ''Content-type'' ''text/html'', EndHeaders,
                  Write ''<h1>404 Not Found</h1><p>Page Not Found</p>''],
       raised = None \<rparr>"
proof -
  have a: "parse_args ''/missing'' = Inr []" by code_simp
  have m: "match_route ''/missing'' [] ''/boom'' = Inr None" by code_simp
  have p: "request_path ''/missing'' = ''/missing''" by code_simp
  have b: "find_route (request_path ''/missing'') [] [(''/boom'', failing)] = Inr None"
    by (simp add: p m)
  have d: "str_replace ''{{ message }}'' ''Page Not Found''
             (str_replace ''{{ title }}'' ''404 Not Found''
                ''<h1>{{ title }}</h1><p>{{ message }}</p>'') =
           ''<h1>404 Not Found</h1><p>Page Not Found</p>''"
    by code_simp
  show ?thesis
    using no_match_is_404 [where fs = templates, OF a b templates_error_html]
    by (simp only: d)
qed

section \<open>Method names\<close>

lemma upper_chr_iff:
  assumes "65 \<le> (of_char U :: nat)" and "(of_char U :: nat) \<le> 90"
  shows "upper_chr c = U \<longleftrightarrow> c = U \<or> c = char_of (of_char U + 32 :: nat)"
proof
  assume a: "upper_chr c = U"
  show "c = U \<or> c = char_of (of_char U + 32 :: nat)"
  proof (cases "97 \<le> (of_char c :: nat) \<and> of_char c \<le> (122 :: nat)")
    case True
    with a have "char_of (of_char c - 32 :: nat) = U" by (simp add: upper_chr_def Let_def)
    then have "(of_char U :: nat) = (of_char c - 32) mod 256" by auto
    moreover have "(of_char c - 32 :: nat) mod 256 = of_char c - 32"
      using True by (intro mod_less) linarith
    ultimately have "(of_char U :: nat) + 32 = of_char c" using True by linarith
    then have "char_of (of_char U + 32 :: nat) = (char_of (of_char c :: nat) :: char)" by simp
    then show ?thesis by simp
  next
    case False
    with a show ?thesis by (auto simp: upper_chr_def Let_def)
  qed
next
  assume "c = U \<or> c = char_of (of_char U + 32 :: nat)"
  then show "upper_chr c = U"
  proof
    assume "c = U"
    with assms show ?thesis by (simp add: upper_chr_def Let_def)
  next
    assume c: "c = char_of (of_char U + 32 :: nat)"
    from assms have "(of_char U + 32 :: nat) mod 256 = of_char U + 32" by simp
    with c have "(of_char c :: nat) = of_char U + 32" by simp
    with assms show ?thesis by (simp add: upper_chr_def Let_def)
  qed
qed

lemma upper_GET_iff:
  "upper m = ''GET'' \<longleftrightarrow>
     (\<exists>a b c. m = [a, b, c] \<and> a \<in> {CHR ''G'', CHR ''g''} \<and> b \<in> {CHR ''E'', CHR ''e''}
        \<and> c \<in> {CHR ''T'', CHR ''t''})"
proof -
  have n: "(char_of (103::nat) :: char) = CHR ''g''" "(char_of (101::nat) :: char) = CHR ''e''"
    "(char_of (116::nat) :: char) = CHR ''t''"
    by code_simp+
  have g: "\<And>c. upper_chr c = CHR ''G'' \<longleftrightarrow> c = CHR ''G'' \<or> c = CHR ''g''"
    using upper_chr_iff [of "CHR ''G''"] by (simp add: n)
  have e: "\<And>c. upper_chr c = CHR ''E'' \<longleftrightarrow> c = CHR ''E'' \<or> c = CHR ''e''"
    using upper_chr_iff [of "CHR ''E''"] by (simp add: n)
  have t: "\<And>c. upper_chr c = CHR ''T'' \<longleftrightarrow> c = CHR ''T'' \<or> c = CHR ''t''"
    using upper_chr_iff [of "CHR ''T''"] by (simp add: n)
  have "upper m = ''GET'' \<longleftrightarrow>
          (\<exists>a b c. m = [a, b, c] \<and> upper_chr a = CHR ''G'' \<and> upper_chr b = CHR ''E''
             \<and> upper_chr c = CHR ''T'')"
    unfolding upper_def by (auto simp: map_eq_Cons_conv)
  then show ?thesis unfolding g e t by simp
qed


lemma upper_POST_iff:
  "upper m = ''POST'' \<longleftrightarrow>
     (\<exists>a b c d. m = [a, b, c, d] \<and> a \<in> {CHR ''P'', CHR ''p''} \<and> b \<in> {CHR ''O'', CHR ''o''}
        \<and> c \<in> {CHR ''S'', CHR ''s''} \<and> d \<in> {CHR ''T'', CHR ''t''})"
proof -
  have n: "(char_of (112::nat) :: char) = CHR ''p''" "(char_of (111::nat) :: char) = CHR ''o''"
    "(char_of (115::nat) :: char) = CHR ''s''" "(char_of (116::nat) :: char) = CHR ''t''"
    by code_simp+
  have p: "\<And>c. upper_chr c = CHR ''P'' \<longleftrightarrow> c = CHR ''P'' \<or> c = CHR ''p''"
    using upper_chr_iff [of "CHR ''P''"] by (simp add: n)
  have o: "\<And>c. upper_chr c = CHR ''O'' \<longleftrightarrow> c = CHR ''O'' \<or> c = CHR ''o''"
    using upper_chr_iff [of "CHR ''O''"] by (simp add: n)
  have s: "\<And>c. upper_chr c = CHR ''S'' \<longleftrightarrow> c = CHR ''S'' \<or> c = CHR ''s''"
    using upper_chr_iff [of "CHR ''S''"] by (simp add: n)
  have t: "\<And>c. upper_chr c = CHR ''T'' \<longleftrightarrow> c = CHR ''T'' \<or> c = CHR ''t''"
    using upper_chr_iff [of "CHR ''T''"] by (simp add: n)
  have "upper m = ''POST'' \<longleftrightarrow>
          (\<exists>a b c d. m = [a, b, c, d] \<and> upper_chr a = CHR ''P'' \<and> upper_chr b = CHR ''O''
             \<and> upper_chr c = CHR ''S'' \<and> upper_chr d = CHR ''T'')"
    unfolding upper_def by (auto simp: map_eq_Cons_conv)
  then show ?thesis unfolding p o s t by simp
qed


lemma rstrip_x: "rstrip_chr (CHR ''/'') ''/x'' = ''/x''" "rstrip_chr (CHR ''/'') ''/x/'' = ''/x''"
  by code_simp+

lemma request_x: "request_path ''/x'' = ''/x''" "parse_args ''/x'' = Inr []"
  by code_simp+

lemma send_page_a:
  "send_response fs request_args page_a params =
     \<lparr> events = [SendResponse 200, SendHeader ''Content-type'' ''text/html'', EndHeaders,
                  Invoke page_a params, Write ''a''], raised = None \<rparr>"
  by (simp add: send_response_def headers_200_def page_a_def)

lemma send_page_b:
  "send_response fs request_args page_b params =
     \<lparr> events = [SendResponse 200, SendHeader ''Content-type'' ''text/html'', EndHeaders,
                  Invoke page_b params, Write ''b''], raised = None \<rparr>"
  by (simp add: send_response_def headers_200_def page_b_def)




section \<open>The route table\<close>

lemma dict_set_twice: "dict_set k v2 (dict_set k v1 t) = dict_set k v2 t"
  by (induction t) auto

lemma dict_set_keys: "map fst (dict_set k v2 t) = map fst (dict_set k v1 t)"
  by (induction t) auto

lemma dict_get_set: "dict_get (dict_set k v t) k = Some v"
  by (induction t) auto

lemma dict_set_decomp:
  "dict_set k v t =
     takeWhile (\<lambda>p. fst p \<noteq> k) t @ (k, v) # drop 1 (dropWhile (\<lambda>p. fst p \<noteq> k) t)"
  by (induction t) auto

lemma find_route_append:
  "find_route path args pre = Inr None \<Longrightarrow>
   find_route path args (pre @ rest) = find_route path args rest"
  by (induction pre) (auto split: sum.splits option.splits)

lemma find_route_first_match:
  assumes "find_route path args (takeWhile (\<lambda>p. fst p \<noteq> k) t) = Inr None"
    and "match_route path args k = Inr (Some ps)"
  shows "find_route path args (dict_set k f t) = Inr (Some (f, ps))"
  by (subst dict_set_decomp) (simp add: find_route_append [OF assms(1)] assms(2))

lemma get_stores:
  "get_routes (snd (get url f s)) = dict_set (rstrip_chr (CHR ''/'') url) f (get_routes s)"
  "post_routes (snd (get url f s)) = post_routes s"
  by (simp_all add: get_def route_def upper_GET)

lemma post_stores:
  "post_routes (snd (post url f s)) = dict_set (rstrip_chr (CHR ''/'') url) f (post_routes s)"
  "get_routes (snd (post url f s)) = get_routes s"
  by (simp_all add: post_def route_def upper_POST Let_def)

text \<open>
  C7, as the spec states it: after a pattern is registered twice for one method, a
  request that matches the pattern calls the second handler. The entry is served only
  when the scan reaches it: with \<open>/<p>\<close> registered before \<open>/x\<close>, the request \<open>/x\<close> is
  answered by the handler of \<open>/<p>\<close>, and neither handler of \<open>/x\<close> is called.
\<close>

theorem reregistered_route_shadowed:
  "do_GET no_files
     (snd (get ''/x'' page_b (snd (get ''/x'' failing (snd (get ''/<p>'' page_a init))))))
     ''/x'' =
     \<lparr> events = [SendResponse 200, SendHeader ''Content-type'' ''text/html'', EndHeaders,
                  Invoke page_a [PyStr ''x''], Write ''a''],
       raised = None \<rparr>"
proof -
  have r: "rstrip_chr (CHR ''/'') ''/<p>'' = ''/<p>''" by code_simp
  have t: "get_routes (snd (get ''/x'' page_b (snd (get ''/x'' failing (snd (get ''/<p>'' page_a init)))))) =
           [(''/<p>'', page_a), (''/x'', page_b)]"
    by (simp add: get_stores r rstrip_x init_def)
  have m: "match_route ''/x'' [] ''/<p>'' = Inr (Some [PyStr ''x''])" by code_simp
  show ?thesis
    by (simp add: do_GET_def t handle_request_def request_x m send_page_a)
qed

text \<open>
  C7, amended: when a pattern is registered for a method a second time, under any
  spelling with the same normalized form, the table of that method keeps its keys in the
  order they had and holds the second handler under the key; the other table is not
  touched. A request that matches the entry, when no entry before it matches, is
  answered by the second handler. This holds for GET and for POST.
\<close>

theorem reregistering_replaces_handler_in_place:
  assumes "rstrip_chr (CHR ''/'') url' = rstrip_chr (CHR ''/'') url"
  shows "get_routes (snd (get url' f2 (snd (get url f1 st)))) =
       dict_set (rstrip_chr (CHR ''/'') url) f2 (get_routes st)
   \<and> map fst (get_routes (snd (get url' f2 (snd (get url f1 st))))) =
       map fst (get_routes (snd (get url f1 st)))
   \<and> dict_get (get_routes (snd (get url' f2 (snd (get url f1 st))))) (rstrip_chr (CHR ''/'') url) =
       Some f2
   \<and> post_routes (snd (get url' f2 (snd (get url f1 st)))) = post_routes st
   \<and> (parse_args raw = Inr request_args
        \<and> find_route (request_path raw) request_args
             (takeWhile (\<lambda>p. fst p \<noteq> rstrip_chr (CHR ''/'') url) (get_routes st)) = Inr None
        \<and> match_route (request_path raw) request_args (rstrip_chr (CHR ''/'') url) = Inr (Some params)
      \<longrightarrow> do_GET fs (snd (get url' f2 (snd (get url f1 st)))) raw =
            send_response fs request_args f2 params)
   \<and> post_routes (snd (post url' f2 (snd (post url f1 st)))) =
       dict_set (rstrip_chr (CHR ''/'') url) f2 (post_routes st)
   \<and> map fst (post_routes (snd (post url' f2 (snd (post url f1 st))))) =
       map fst (post_routes (snd (post url f1 st)))
   \<and> dict_get (post_routes (snd (post url' f2 (snd (post url f1 st))))) (rstrip_chr (CHR ''/'') url) =
       Some f2
   \<and> get_routes (snd (post url' f2 (snd (post url f1 st)))) = get_routes st
   \<and> (parse_args raw = Inr request_args
        \<and> find_route (request_path raw) request_args
             (takeWhile (\<lambda>p. fst p \<noteq> rstrip_chr (CHR ''/'') url) (post_routes st)) = Inr None
        \<and> match_route (request_path raw) request_args (rstrip_chr (CHR ''/'') url) = Inr (Some params)
      \<longrightarrow> do_POST fs (snd (post url' f2 (snd (post url f1 st)))) raw =
            send_response fs request_args f2 params)"
  by (simp add: get_stores post_stores assms dict_set_twice dict_get_set do_GET_def do_POST_def
        handle_request_def find_route_first_match dict_set_keys [of _ f2 _ f1])

theorem reregistering_replaces_handler_in_place_witness:
  "get_routes (snd (get ''/x/'' page_b (snd (get ''/x'' page_a sample_app)))) =
     [(''/w'', failing), (''/x'', page_b), (''/y'', failing)]
   \<and> do_GET no_files (snd (get ''/x/'' page_b (snd (get ''/x'' page_a sample_app)))) ''/x'' =
     \<lparr> events = [SendResponse 200, SendHeader ''Content-type'' ''text/html'', EndHeaders,
                  Invoke page_b [], Write ''b''], raised = None \<rparr>
   \<and> post_routes (snd (post ''/x/'' page_b (snd (post ''/x'' page_a sample_app)))) =
     [(''/x'', page_b), (''/z'', failing)]
   \<and> do_POST no_files (snd (post ''/x/'' page_b (snd (post ''/x'' page_a sample_app)))) ''/x'' =
     \<lparr> events = [SendResponse 200, SendHeader ''Content-type'' ''text/html'', EndHeaders,
                  Invoke page_b [], Write ''b''], raised = None \<rparr>"
proof -
  have n: "rstrip_chr (CHR ''/'') ''/x/'' = rstrip_chr (CHR ''/'') ''/x''"
    by (simp add: rstrip_x)
  have w: "match_route ''/x'' [] ''/w'' = Inr None" by code_simp
  have m: "match_route ''/x'' [] ''/x'' = Inr (Some [])"
    by (simp add: match_route_exact rstrip_x)
  have g: "get_routes sample_app = [(''/w'', failing), (''/x'', failing), (''/y'', failing)]"
    and p: "post_routes sample_app = [(''/x'', failing), (''/z'', failing)]"
    by (simp_all add: sample_app_def)
  show ?thesis
    using reregistering_replaces_handler_in_place [OF n, where ?f1.0 = page_a and ?f2.0 = page_b
        and st = sample_app and raw = "''/x''" and request_args = "[]" and params = "[]"
        and fs = no_files]
    by (simp add: rstrip_x request_x g p w m send_page_b)
qed

section \<open>Exact patterns\<close>

lemma find_route_skip:
  "match_route path args u = Inr None \<Longrightarrow>
   find_route path args (pre @ (u, h) # rest) = find_route path args (pre @ rest)"
  by (induction pre) (auto split: sum.splits option.splits)

lemma send_response_starts:
  "take 4 (events (send_response fs args f params)) =
     [SendResponse 200, SendHeader ''Content-type'' ''text/html'', EndHeaders, Invoke f params]"
  by (simp add: send_response_def headers_200_def Let_def split: outcome.splits sum.splits)

lemma no_query_args: "CHR ''?'' \<notin> set P \<Longrightarrow> parse_args P = Inr []"
  by (simp add: parse_args_def)

lemma no_query_path: "CHR ''?'' \<notin> set P \<Longrightarrow> request_path P = rstrip_chr (CHR ''/'') P"
proof -
  assume "CHR ''?'' \<notin> set P"
  then have "takeWhile (\<lambda>c. c \<noteq> CHR ''?'') P = P"
    by (intro takeWhile_eq_all_conv [THEN iffD2]) auto
  then show ?thesis unfolding request_path_eq by (simp only:)
qed

lemma rstrip_chr_snoc: "rstrip_chr c (s @ [c]) = rstrip_chr c s"
  by (simp add: rstrip_chr_def)

text \<open>
  C5, as the spec states it: a request to a registered exact pattern reaches its
  handler with no parameters. The table is scanned in order and the first entry that
  matches is served: with \<open>/<page>\<close> registered before \<open>/about\<close>, the request \<open>/about\<close>
  goes to the handler of \<open>/<page>\<close> with the parameter \<open>about\<close>.
\<close>

theorem exact_route_shadowed:
  "do_GET no_files (snd (get ''/about'' page_b (snd (get ''/<page>'' page_a init)))) ''/about'' =
     \<lparr> events = [SendResponse 200, SendHeader ''Content-type'' ''text/html'', EndHeaders,
                  Invoke page_a [PyStr ''about''], Write ''a''],
       raised = None \<rparr>"
proof -
  have r: "rstrip_chr (CHR ''/'') ''/about'' = ''/about''" "rstrip_chr (CHR ''/'') ''/<page>'' = ''/<page>''"
    by code_simp+
  have t: "get_routes (snd (get ''/about'' page_b (snd (get ''/<page>'' page_a init)))) =
           [(''/<page>'', page_a), (''/about'', page_b)]"
    by (simp add: get_def route_def upper_GET r init_def)
  have p: "request_path ''/about'' = ''/about''" by code_simp
  have a: "parse_args ''/about'' = Inr []" by code_simp
  have m: "match_route ''/about'' [] ''/<page>'' = Inr (Some [PyStr ''about''])" by code_simp
  show ?thesis
    by (simp add: do_GET_def t handle_request_def p a m send_response_def headers_200_def page_a_def)
qed

text \<open>
  C5, amended: for a pattern \<open>P\<close> without \<open>?\<close> stored in the table with handler \<open>H\<close>,
  when no entry before it matches the path of \<open>P\<close>, the requests \<open>P\<close> and \<open>P/\<close> are both
  answered by \<open>H\<close> called with no parameters.
\<close>

theorem exact_route_first_match:
  assumes "CHR ''?'' \<notin> set P"
    and "find_route (request_path P) [] pre = Inr None"
  shows "handle_request fs P (pre @ (P, H) # rest) = send_response fs [] H []
     \<and> handle_request fs (P @ ''/'') (pre @ (P, H) # rest) = send_response fs [] H []
     \<and> take 4 (events (send_response fs [] H [])) =
         [SendResponse 200, SendHeader ''Content-type'' ''text/html'', EndHeaders, Invoke H []]"
proof -
  have q: "CHR ''?'' \<notin> set (P @ ''/'')" using assms(1) by simp
  have p: "request_path (P @ ''/'') = request_path P"
    by (simp add: no_query_path [OF q] no_query_path [OF assms(1)] rstrip_chr_snoc)
  have m: "match_route (request_path P) [] P = Inr (Some [])"
    by (simp add: match_route_exact no_query_path [OF assms(1)])
  have f: "find_route (request_path P) [] (pre @ (P, H) # rest) = Inr (Some (H, []))"
    by (simp add: find_route_append [OF assms(2)] m)
  show ?thesis
    by (simp add: handle_request_def no_query_args [OF q] no_query_args [OF assms(1)] p f
          send_response_starts)
qed

theorem exact_route_first_match_witness:
  "handle_request no_files ''/about'' [(''/item/<slug>'', page_a), (''/about'', page_b)] =
     \<lparr> events = [SendResponse 200, SendHeader ''Content-type'' ''text/html'', EndHeaders,
                  Invoke page_b [], Write ''b''], raised = None \<rparr>
   \<and> handle_request no_files ''/about/'' [(''/item/<slug>'', page_a), (''/about'', page_b)] =
     \<lparr> events = [SendResponse 200, SendHeader ''Content-type'' ''text/html'', EndHeaders,
                  Invoke page_b [], Write ''b''], raised = None \<rparr>"
proof -
  have a: "CHR ''?'' \<notin> set ''/about''" by simp
  have p: "request_path ''/about'' = ''/about''" by code_simp
  have m: "match_route ''/about'' [] ''/item/<slug>'' = Inr None" by code_simp
  have b: "find_route (request_path ''/about'') [] [(''/item/<slug>'', page_a)] = Inr None"
    by (simp add: p m)
  have s: "send_response no_files [] page_b [] =
     \<lparr> events = [SendResponse 200, SendHeader ''Content-type'' ''text/html'', EndHeaders,
                  Invoke page_b [], Write ''b''], raised = None \<rparr>"
    by (simp add: send_response_def headers_200_def page_b_def)
  show ?thesis
    using exact_route_first_match [OF a b, of no_files page_b "[]"]
    by (simp add: s)
qed

section \<open>Untyped placeholders\<close>

lemma match_item_red_shoes:
  "match_route ''/item/red-shoes'' [] ''/item/<slug>'' = Inr (Some [PyStr ''red-shoes''])"
  by code_simp

lemma match_item_a_b: "match_route ''/item/a/b'' [] ''/item/<slug>'' = Inr None"
  by code_simp

text \<open>
  C6, as the spec states it: with \<open>/item/<slug>\<close> registered, the request
  \<open>/item/red-shoes\<close> calls its handler with the string \<open>red-shoes\<close>. An entry registered
  earlier that matches the path is served instead: here the exact route
  \<open>/item/red-shoes\<close>, whose handler is called with no parameters.
\<close>

theorem untyped_route_shadowed:
  "do_GET no_files
     (snd (get ''/item/<slug>'' page_b (snd (get ''/item/red-shoes'' page_a init))))
     ''/item/red-shoes'' =
     \<lparr> events = [SendResponse 200, SendHeader ''Content-type'' ''text/html'', EndHeaders,
                  Invoke page_a [], Write ''a''],
       raised = None \<rparr>"
proof -
  have r: "rstrip_chr (CHR ''/'') ''/item/red-shoes'' = ''/item/red-shoes''"
    "rstrip_chr (CHR ''/'') ''/item/<slug>'' = ''/item/<slug>''"
    by code_simp+
  have t: "get_routes (snd (get ''/item/<slug>'' page_b (snd (get ''/item/red-shoes'' page_a init)))) =
           [(''/item/red-shoes'', page_a), (''/item/<slug>'', page_b)]"
    by (simp add: get_def route_def upper_GET r init_def)
  have p: "request_path ''/item/red-shoes'' = ''/item/red-shoes''" by code_simp
  have a: "parse_args ''/item/red-shoes'' = Inr []" by code_simp
  have m: "match_route ''/item/red-shoes'' [] ''/item/red-shoes'' = Inr (Some [])"
    by (simp add: match_route_exact r)
  show ?thesis
    by (simp add: do_GET_def t handle_request_def p a m send_response_def headers_200_def page_a_def)
qed

text \<open>
  C6, amended: when no entry before \<open>/item/<slug>\<close> matches \<open>/item/red-shoes\<close>, the
  request calls the route's handler with the one parameter \<open>red-shoes\<close>, an unconverted
  string. The path \<open>/item/a/b\<close> never matches the route: the scan goes on as if the entry
  were not in the table.
\<close>

theorem untyped_route_first_match:
  assumes "find_route ''/item/red-shoes'' [] pre = Inr None"
  shows "handle_request fs ''/item/red-shoes'' (pre @ (''/item/<slug>'', h) # rest) =
           send_response fs [] h [PyStr ''red-shoes'']
     \<and> take 4 (events (send_response fs [] h [PyStr ''red-shoes''])) =
         [SendResponse 200, SendHeader ''Content-type'' ''text/html'', EndHeaders,
          Invoke h [PyStr ''red-shoes'']]
     \<and> match_route ''/item/a/b'' request_args ''/item/<slug>'' = Inr None
     \<and> find_route ''/item/a/b'' request_args (before @ (''/item/<slug>'', h) # rest) =
         find_route ''/item/a/b'' request_args (before @ rest)"
proof -
  have p: "request_path ''/item/red-shoes'' = ''/item/red-shoes''" by code_simp
  have a: "parse_args ''/item/red-shoes'' = Inr []" by code_simp
  have f: "find_route ''/item/red-shoes'' [] (pre @ (''/item/<slug>'', h) # rest) =
           Inr (Some (h, [PyStr ''red-shoes'']))"
    by (simp add: find_route_append [OF assms] match_item_red_shoes)
  have n: "match_route ''/item/a/b'' request_args ''/item/<slug>'' = Inr None"
    by (subst match_route_args) (rule match_item_a_b)
  show ?thesis
    by (simp add: handle_request_def p a f n send_response_starts find_route_skip [OF n])
qed

theorem untyped_route_first_match_witness:
  "handle_request no_files ''/item/red-shoes'' [(''/about'', page_a), (''/item/<slug>'', page_b)] =
     \<lparr> events = [SendResponse 200, SendHeader ''Content-type'' ''text/html'', EndHeaders,
                  Invoke page_b [PyStr ''red-shoes''], Write ''b''], raised = None \<rparr>"
proof -
  have m: "match_route ''/item/red-shoes'' [] ''/about'' = Inr None" by code_simp
  have b: "find_route ''/item/red-shoes'' [] [(''/about'', page_a)] = Inr None"
    by (simp add: m)
  have s: "send_response no_files [] page_b [PyStr ''red-shoes''] =
     \<lparr> events = [SendResponse 200, SendHeader ''Content-type'' ''text/html'', EndHeaders,
                  Invoke page_b [PyStr ''red-shoes''], Write ''b''], raised = None \<rparr>"
    by (simp add: send_response_def headers_200_def page_b_def)
  show ?thesis
    using untyped_route_first_match [OF b, of no_files page_b "[]"]
    by (simp add: s)
qed

section \<open>Two untyped placeholders\<close>

lemma is_word_not_special: "is_word c \<Longrightarrow> \<not> re_special c"
  by (auto simp: is_word_def re_special_def Let_def)

lemma is_word_not_punct:
  "is_word c \<Longrightarrow> c \<noteq> CHR ''<'' \<and> c \<noteq> CHR ''>'' \<and> c \<noteq> CHR '':''"
  by (auto simp: is_word_def Let_def)

lemma strip_prefix_Some: "strip_prefix p x = Some r \<longleftrightarrow> x = p @ r"
  by (induction p x rule: strip_prefix.induct) auto

lemma strip_prefix_None_hd: "c \<noteq> d \<Longrightarrow> strip_prefix (d # p) (c # cs) = None"
  by simp

lemma match_typed_other: "c \<noteq> CHR ''<'' \<Longrightarrow> match_typed (c # cs) = None"
  by (simp add: match_typed_def)

lemma match_untyped_other: "c \<noteq> CHR ''<'' \<Longrightarrow> match_untyped (c # cs) = None"
  by (simp add: match_untyped_def)

lemma match_conv_Some:
  "match_conv x = Some (conv, r) \<Longrightarrow> x = conv @ r \<and> list_all is_word conv"
proof -
  have w: "list_all is_word ''int''" "list_all is_word ''string''" "list_all is_word ''float''"
    by code_simp+
  assume "match_conv x = Some (conv, r)"
  then show ?thesis
    using w by (auto simp: match_conv_def strip_prefix_Some split: option.splits)
qed

lemma word_run_take: "list_all is_word n \<Longrightarrow> \<not> is_word d \<Longrightarrow> takeWhile is_word (n @ d # s) = n"
  by (induction n) auto

lemma word_run_drop: "list_all is_word n \<Longrightarrow> \<not> is_word d \<Longrightarrow> dropWhile is_word (n @ d # s) = d # s"
  by (induction n) auto

lemma not_word_punct: "\<not> is_word (CHR ''>'')" "\<not> is_word (CHR '':'')" "\<not> is_word (CHR ''<'')"
  by (simp_all add: is_word_def)

lemma match_typed_hole:
  assumes "list_all is_word n"
  shows "match_typed (CHR ''<'' # n @ CHR ''>'' # s) = None"
proof (cases "match_conv (n @ CHR ''>'' # s)")
  case None
  then show ?thesis by (simp add: match_typed_def)
next
  case (Some a)
  obtain conv r where a: "a = (conv, r)" by (cases a)
  from match_conv_Some [OF Some [unfolded a]]
  have e: "n @ CHR ''>'' # s = conv @ r" and w: "list_all is_word conv" by simp_all
  have "strip_prefix '':'' r = None"
  proof (rule ccontr)
    assume "strip_prefix '':'' r \<noteq> None"
    then obtain r' where "r = CHR '':'' # r'"
      by (auto simp: strip_prefix_Some)
    with e have "dropWhile is_word (n @ CHR ''>'' # s) = dropWhile is_word (conv @ CHR '':'' # r')"
      by simp
    then show False
      by (simp add: word_run_drop [OF assms] word_run_drop [OF w] not_word_punct)
  qed
  with Some a show ?thesis by (simp add: match_typed_def)
qed

lemma match_untyped_hole:
  assumes "n \<noteq> []" and "list_all is_word n"
  shows "match_untyped (CHR ''<'' # n @ CHR ''>'' # s) = Some (n, s)"
  using assms
  by (simp add: match_untyped_def word_run_take word_run_drop not_word_punct)

lemma sub_typed_text:
  "CHR ''<'' \<notin> set t \<Longrightarrow>
   sub_typed (t @ s) = (case sub_typed s of Inl e \<Rightarrow> Inl e | Inr u \<Rightarrow> Inr (t @ u))"
  by (induction t) (auto simp: match_typed_other split: sum.splits)

lemma sub_typed_hole:
  assumes "list_all is_word n"
  shows "sub_typed (CHR ''<'' # n @ CHR ''>'' # s) =
     (case sub_typed s of Inl e \<Rightarrow> Inl e | Inr u \<Rightarrow> Inr (CHR ''<'' # n @ CHR ''>'' # u))"
proof -
  have "CHR ''<'' \<notin> set (n @ ''>'')"
    using assms is_word_not_punct by (auto simp: list_all_iff)
  from sub_typed_text [OF this, of s] show ?thesis
    by (simp add: match_typed_hole [OF assms] split: sum.splits)
qed

lemma sub_typed_pattern: "list_all plain_seg segs \<Longrightarrow> sub_typed (pattern segs) = Inr (pattern segs)"
proof (induction segs)
  case Nil
  then show ?case by (simp add: pattern_def)
next
  case (Cons a segs)
  then have ih: "sub_typed (pattern segs) = Inr (pattern segs)" by simp
  show ?case
  proof (cases a)
    case (Text t)
    with Cons.prems have "CHR ''<'' \<notin> set t" by (auto simp: list_all_iff)
    from sub_typed_text [OF this, of "pattern segs"] show ?thesis
      using Text ih by (simp add: pattern_def)
  next
    case (Hole n)
    with Cons.prems have "list_all is_word n" by simp
    from sub_typed_hole [OF this, of "pattern segs"] show ?thesis
      using Hole ih by (simp add: pattern_def)
  qed
qed

lemma sub_untyped_text:
  "CHR ''<'' \<notin> set t \<Longrightarrow> sub_untyped repl (t @ s) = t @ sub_untyped repl s"
  by (induction t) (auto simp: match_untyped_other)

lemma sub_untyped_hole:
  "n \<noteq> [] \<Longrightarrow> list_all is_word n \<Longrightarrow>
   sub_untyped repl (CHR ''<'' # n @ CHR ''>'' # s) = repl @ sub_untyped repl s"
  by (simp add: match_untyped_hole)

lemma sub_untyped_pattern:
  "list_all plain_seg segs \<Longrightarrow>
   sub_untyped repl (pattern segs) =
     concat (map (\<lambda>sg. case sg of Text t \<Rightarrow> t | Hole n \<Rightarrow> repl) segs)"
proof (induction segs)
  case Nil
  then show ?case by (simp add: pattern_def)
next
  case (Cons a segs)
  then have ih: "sub_untyped repl (pattern segs) =
     concat (map (\<lambda>sg. case sg of Text t \<Rightarrow> t | Hole n \<Rightarrow> repl) segs)" by simp
  show ?case
  proof (cases a)
    case (Text t)
    with Cons.prems have "CHR ''<'' \<notin> set t" by (auto simp: list_all_iff)
    from sub_untyped_text [OF this, of repl "pattern segs"] show ?thesis
      using Text ih by (simp add: pattern_def)
  next
    case (Hole n)
    with Cons.prems have "n \<noteq> []" "list_all is_word n" by simp_all
    from sub_untyped_hole [OF this, of repl "pattern segs"] show ?thesis
      using Hole ih by (simp add: pattern_def)
  qed
qed

lemma parse_piece_literal:
  assumes "\<not> re_special c" and "r = [] \<or> hd r \<noteq> CHR ''+''"
  shows "parse_piece (c # r) = Some (One (Lit c), r)"
proof -
  from assms(1) have c: "c \<noteq> CHR 0x5C" "c \<noteq> CHR ''[''" "c \<noteq> CHR ''.''"
    by (auto simp: re_special_def)
  have a: "parse_atom (c # r) = Some (Lit c, r)"
    using c assms(1) by (simp add: parse_atom_def)
  from assms(2) have "strip_prefix ''+'' r = None"
    by (cases r) auto
  with a show ?thesis by (simp add: parse_piece_def)
qed

lemma parse_re_literal:
  assumes "\<not> re_special c" and "r = [] \<or> hd r \<noteq> CHR ''+''"
  shows "parse_re (c # r) names =
     (case parse_re r names of Inl e \<Rightarrow> Inl e | Inr ns \<Rightarrow> Inr (Piece (One (Lit c)) # ns))"
proof -
  from assms(1) have "c \<noteq> CHR ''(''" by (auto simp: re_special_def)
  then have "strip_prefix ''(?P<'' (c # r) = None" by simp
  then show ?thesis
    by (subst parse_re.simps) (simp add: parse_piece_literal [OF assms])
qed

lemma parse_re_text:
  assumes "list_all (\<lambda>c. \<not> re_special c) t" and "s = [] \<or> hd s \<noteq> CHR ''+''"
  shows "parse_re (t @ s) names =
     (case parse_re s names of
        Inl e \<Rightarrow> Inl e
      | Inr ns \<Rightarrow> Inr (map (\<lambda>c. Piece (One (Lit c))) t @ ns))"
  using assms
proof (induction t)
  case Nil
  then show ?case by (simp split: sum.splits)
next
  case (Cons c t)
  then have c: "\<not> re_special c" and t: "list_all (\<lambda>c. \<not> re_special c) t" by simp_all
  have "t @ s = [] \<or> hd (t @ s) \<noteq> CHR ''+''"
  proof (cases t)
    case Nil
    with Cons.prems(2) show ?thesis by simp
  next
    case (Cons d t')
    with t have "\<not> re_special d" by simp
    then have "d \<noteq> CHR ''+''" by (auto simp: re_special_def)
    with Cons show ?thesis by simp
  qed
  from parse_re_literal [OF c this, of names] Cons.IH [OF t Cons.prems(2)]
  show ?case by (simp split: sum.splits)
qed

lemma is_identifier_var: "is_identifier ''var''"
  by code_simp

lemma parse_body_notslash: "parse_body (''[^/]+)'' @ s) = Some ([Plus NotSlash], s)"
proof -
  have a: "parse_piece (''[^/]+)'' @ s) = Some (Plus NotSlash, CHR '')'' # s)"
    by (simp add: parse_piece_def parse_atom_def)
  have b: "parse_body (CHR '')'' # s) = Some ([], s)"
    by (subst parse_body.simps) simp
  show ?thesis
    using a b by (subst parse_body.simps) simp
qed

lemma parse_re_group:
  "parse_re (''(?P<var>[^/]+)'' @ s) names =
     (if ''var'' \<in> set names then Inl (ReError (Redefinition ''var''))
      else (case parse_re s (names @ [''var'']) of
              Inl e \<Rightarrow> Inl e
            | Inr ns \<Rightarrow> Inr (Group ''var'' [Plus NotSlash] # ns)))"
proof -
  have b: "parse_body (''[^/]+)'' @ s) = Some ([Plus NotSlash], s)"
    by (rule parse_body_notslash)
  show ?thesis
    using b by (subst parse_re.simps) (simp add: is_identifier_var Let_def)
qed


lemma match_nodes_text:
  "match_nodes (map (\<lambda>c. Piece (One (Lit c))) t) s =
     (case strip_prefix t s of None \<Rightarrow> [] | Some r \<Rightarrow> [([], r)])"
proof (induction t arbitrary: s)
  case Nil
  then show ?case by simp
next
  case (Cons c t)
  then show ?case by (cases s) auto
qed

lemma strip_prefix_whole: "strip_prefix t s = Some [] \<longleftrightarrow> s = t"
  by (simp add: strip_prefix_Some)

lemma fullmatch_text:
  assumes "list_all (\<lambda>c. \<not> re_special c) t"
  shows "fullmatch t s = Inr (if s = t then Some [] else None)"
proof -
  have p: "parse_re t [] = Inr (map (\<lambda>c. Piece (One (Lit c))) t)"
    using parse_re_text [OF assms, of "[]" "[]"] by (simp add: parse_re.simps [of "[]"])
  show ?thesis
  proof (cases "strip_prefix t s")
    case None
    then have "s \<noteq> t" using strip_prefix_whole [of t s] by auto
    with None show ?thesis by (simp add: fullmatch_def p match_nodes_text)
  next
    case (Some r)
    then have "r = [] \<longleftrightarrow> s = t" using strip_prefix_whole [of t s] by (auto simp: strip_prefix_Some)
    with Some show ?thesis by (simp add: fullmatch_def p match_nodes_text)
  qed
qed

lemma pattern_not_special:
  "list_all plain_seg segs \<Longrightarrow> list_all (\<lambda>c. \<not> re_special c) (pattern segs)"
proof (induction segs)
  case Nil
  then show ?case by (simp add: pattern_def)
next
  case (Cons a segs)
  then have ih: "list_all (\<lambda>c. \<not> re_special c) (pattern segs)" by simp
  have "list_all (\<lambda>c. \<not> re_special c) (seg_text a)"
  proof (cases a)
    case (Text t)
    with Cons.prems show ?thesis by (auto simp: list_all_iff)
  next
    case (Hole n)
    with Cons.prems have "list_all is_word n" by simp
    then have "list_all (\<lambda>c. \<not> re_special c) n"
      by (auto simp: list_all_iff is_word_not_special)
    with Hole show ?thesis by (simp add: re_special_def)
  qed
  with ih show ?case by (simp add: pattern_def)
qed

lemma filled_head:
  "list_all plain_seg segs \<Longrightarrow>
   concat (map (\<lambda>sg. case sg of Text t \<Rightarrow> t | Hole n \<Rightarrow> ''(?P<var>[^/]+)'') segs) = [] \<or>
   hd (concat (map (\<lambda>sg. case sg of Text t \<Rightarrow> t | Hole n \<Rightarrow> ''(?P<var>[^/]+)'') segs)) \<noteq> CHR ''+''"
proof (induction segs)
  case Nil
  then show ?case by simp
next
  case (Cons a segs)
  show ?case
  proof (cases a)
    case (Text t)
    show ?thesis
    proof (cases t)
      case Nil
      with Text Cons show ?thesis by simp
    next
      case (Cons c t')
      with Text Cons.prems have "\<not> re_special c" by simp
      then have "c \<noteq> CHR ''+''" by (auto simp: re_special_def)
      with Text Cons show ?thesis by simp
    qed
  next
    case (Hole n)
    then show ?thesis by simp
  qed
qed

lemma parse_re_filled:
  assumes "list_all plain_seg segs"
    and "(if ''var'' \<in> set names then 1 else 2) \<le> length (filter is_hole segs)"
  shows "parse_re (concat (map (\<lambda>sg. case sg of Text t \<Rightarrow> t | Hole n \<Rightarrow> ''(?P<var>[^/]+)'') segs)) names =
     Inl (ReError (Redefinition ''var''))"
  using assms
proof (induction segs arbitrary: names)
  case Nil
  then show ?case by (simp split: if_splits)
next
  case (Cons a segs)
  let ?fill = "\<lambda>segs. concat (map (\<lambda>sg. case sg of Text t \<Rightarrow> t | Hole n \<Rightarrow> ''(?P<var>[^/]+)'') segs)"
  from Cons.prems have pl: "list_all plain_seg segs" by simp
  show ?case
  proof (cases a)
    case (Text t)
    with Cons.prems have t: "list_all (\<lambda>c. \<not> re_special c) t"
      by (auto simp: list_all_iff)
    from Text Cons.prems have n: "(if ''var'' \<in> set names then 1 else 2) \<le> length (filter is_hole segs)"
      by simp
    have "parse_re (t @ ?fill segs) names = Inl (ReError (Redefinition ''var''))"
      using parse_re_text [OF t filled_head [OF pl], of names] Cons.IH [OF pl n] by simp
    with Text show ?thesis by simp
  next
    case (Hole n)
    show ?thesis
    proof (cases "''var'' \<in> set names")
      case True
      have "parse_re (''(?P<var>[^/]+)'' @ ?fill segs) names = Inl (ReError (Redefinition ''var''))"
        using True by (simp only: parse_re_group if_True)
      with Hole show ?thesis by simp
    next
      case False
      with Hole Cons.prems have "(if ''var'' \<in> set (names @ [''var'']) then 1 else 2) \<le> length (filter is_hole segs)"
        by simp
      from Cons.IH [OF pl this]
      have "parse_re (''(?P<var>[^/]+)'' @ ?fill segs) names = Inl (ReError (Redefinition ''var''))"
        using False by (simp only: parse_re_group if_False sum.case)
      with Hole show ?thesis by simp
    qed
  qed
qed

lemma request_path_not_slash: "request_path raw \<noteq> ''/''"
proof
  assume "request_path raw = ''/''"
  with rstrip_chr_last [of "CHR ''/''" "takeWhile (\<lambda>c. c \<noteq> CHR ''?'') raw"]
  show False by (simp add: request_path_eq)
qed

lemma converters_at_string: "converters_at ''string'' = Inr StringConverter"
  by (simp add: converters_at_def converters_def)

lemma untyped_repl: "''(?P<var>'' @ regex StringConverter @ '')'' = ''(?P<var>[^/]+)''"
  by (simp add: StringConverter_def)

text \<open>
  C10, as stated: a pattern with two or more untyped placeholders raises the error of the
  duplicate group name for every path that is not exactly the pattern. The pattern is
  handed to \<open>re\<close> as it is, so its other characters are pattern syntax too: the typed
  rule, tried first, compiles \<open>/<a>.<b>\<close> with its dot, the path \<open>/<a>x<b>\<close> matches it in
  full, and the handler is called with no parameters.
\<close>

theorem dotted_pattern_matches_typed_rule:
  "do_GET no_files (snd (get ''/<a>.<b>'' page_a init)) ''/<a>x<b>'' =
     \<lparr> events = [SendResponse 200, SendHeader ''Content-type'' ''text/html'', EndHeaders,
                  Invoke page_a [], Write ''a''],
       raised = None \<rparr>"
proof -
  have r: "rstrip_chr (CHR ''/'') ''/<a>.<b>'' = ''/<a>.<b>''" by code_simp
  have t: "get_routes (snd (get ''/<a>.<b>'' page_a init)) = [(''/<a>.<b>'', page_a)]"
    by (simp add: get_def route_def upper_GET r init_def)
  have p: "request_path ''/<a>x<b>'' = ''/<a>x<b>''" by code_simp
  have a: "parse_args ''/<a>x<b>'' = Inr []" by code_simp
  have m: "match_route ''/<a>x<b>'' [] ''/<a>.<b>'' = Inr (Some [])" by code_simp
  show ?thesis
    by (simp add: do_GET_def t handle_request_def p a m send_response_def headers_200_def page_a_def)
qed

text \<open>
  C10, amended: for a stored pattern made of plain text and two or more untyped
  placeholders, every request path other than the pattern itself makes the untyped rule
  replace each placeholder by a group named \<open>var\<close>, and compiling the result raises the
  redefinition error; the request ends there, whatever follows in the table.
\<close>

theorem two_untyped_placeholders_raise:
  assumes "list_all plain_seg segs"
    and "2 \<le> length (filter is_hole segs)"
    and "rstrip_chr (CHR ''/'') (pattern segs) = pattern segs"
    and "request_path raw \<noteq> pattern segs"
  shows "match_route (request_path raw) request_args (pattern segs) =
           Inl (ReError (Redefinition ''var''))
     \<and> (parse_args raw = Inr request_args
          \<and> find_route (request_path raw) request_args pre = Inr None
        \<longrightarrow> handle_request fs raw (pre @ (pattern segs, h) # rest) =
              \<lparr> events = [], raised = Some (ReError (Redefinition ''var'')) \<rparr>)"
proof -
  let ?path = "request_path raw"
  have t: "typed_rule ?path (pattern segs) (False, []) = Inr (False, [])"
    using assms(4)
    by (simp add: typed_rule_def sub_typed_pattern [OF assms(1)]
          fullmatch_text [OF pattern_not_special [OF assms(1)]])
  have "parse_re (sub_untyped ''(?P<var>[^/]+)'' (pattern segs)) [] =
          Inl (ReError (Redefinition ''var''))"
    using parse_re_filled [OF assms(1), of "[]"] assms(2)
    by (simp add: sub_untyped_pattern [OF assms(1)])
  then have "fullmatch (sub_untyped ''(?P<var>[^/]+)'' (pattern segs)) ?path =
          Inl (ReError (Redefinition ''var''))"
    by (simp add: fullmatch_def)
  then have u: "untyped_rule ?path (pattern segs) (False, []) = Inl (ReError (Redefinition ''var''))"
    using request_path_not_slash [of raw]
    by (simp add: untyped_rule_def converters_at_string StringConverter_def)
  have m: "match_route ?path request_args (pattern segs) = Inl (ReError (Redefinition ''var''))"
    using assms(4) by (simp add: match_route_def assms(3) t u)
  show ?thesis
    by (simp add: m handle_request_def find_route_append)
qed

theorem two_untyped_placeholders_raise_witness:
  "match_route ''/x/y'' [] ''/<a>/<b>'' = Inl (ReError (Redefinition ''var''))
   \<and> handle_request no_files ''/x/y'' [(''/<a>/<b>'', page_a)] =
       \<lparr> events = [], raised = Some (ReError (Redefinition ''var'')) \<rparr>"
proof -
  have s: "pattern [Text ''/'', Hole ''a'', Text ''/'', Hole ''b''] = ''/<a>/<b>''"
    by (simp add: pattern_def)
  have a: "list_all plain_seg [Text ''/'', Hole ''a'', Text ''/'', Hole ''b'']"
    by code_simp
  have b: "2 \<le> length (filter is_hole [Text ''/'', Hole ''a'', Text ''/'', Hole ''b''])"
    by simp
  have c: "rstrip_chr (CHR ''/'') (pattern [Text ''/'', Hole ''a'', Text ''/'', Hole ''b'']) =
           pattern [Text ''/'', Hole ''a'', Text ''/'', Hole ''b'']"
    unfolding s by code_simp
  have p: "request_path ''/x/y'' = ''/x/y''" by code_simp
  have d: "request_path ''/x/y'' \<noteq> pattern [Text ''/'', Hole ''a'', Text ''/'', Hole ''b'']"
    unfolding s p by simp
  have e: "parse_args ''/x/y'' = Inr []" by code_simp
  show ?thesis
    using two_untyped_placeholders_raise [OF a b c d, of "[]" "[]" no_files page_a "[]"]
    by (simp add: s p e)
qed

end
